theory Spec2Isabelle
  imports Main
begin

section \<open>dropshell: the command shell of unixsh.c\<close>

text \<open>
  The shell is modelled as the one process that runs \<open>main\<close>. Everything the process
  does to the outside world is an event of its trace; everything the outside world
  answers (the return value of \<open>fork\<close>, \<open>pipe\<close>, \<open>chdir\<close>, ...) is read from a record of
  answers. C strings are \<open>string\<close>s, a \<open>char *\<close> that may be \<open>NULL\<close> is a
  \<open>string option\<close>, and the array \<open>char *args[MAX_ARGS]\<close> is a function from indices to
  \<open>string option\<close> together with its number of slots: a write or a read at an index
  outside the array is the fault \<open>ArgsOutOfBounds\<close>.
\<close>

subsection \<open>Constants and data\<close>

definition MAX_LINE :: nat where
  "MAX_LINE = 80"

definition MAX_ARGS :: nat where
  "MAX_ARGS = 40"

definition NL :: char where
  "NL = CHR 0x0A"

definition TAB :: char where
  "TAB = CHR 0x09"

definition NUL :: char where
  "NUL = CHR 0x00"

type_synonym argbuf = "nat \<Rightarrow> string option"

datatype pipe_end = ReadEnd | WriteEnd

datatype std_fd = STDIN_FILENO | STDOUT_FILENO

datatype event =
    Printf string
  | Perror string
  | Fflush
  | ReapZombies
  | Getcwd
  | Chdir "string option"
  | Pipe
  | Fork
  | Close pipe_end
  | Dup2 pipe_end std_fd
  | Execvp string "string list"
  | Waitpid int

text \<open>
  How the process stops running the loop other than by leaving it: a memory fault, or,
  in a forked child, the replacement of its image by \<open>execvp\<close> or \<open>exit(1)\<close>.
\<close>

datatype stop =
    ArgsOutOfBounds
  | NullProgram
  | ImageReplaced
  | Exited int

text \<open>The answers of the operating system during one iteration of the loop.\<close>

record os =
  getenv_HOME :: "string option"
  chdir_ret :: "string option \<Rightarrow> int"
  getcwd_ret :: "string option"
  pipe_ret :: int
  fork_ret1 :: int
  fork_ret2 :: int
  execvp_fails :: bool

text \<open>
  The variables that live across iterations: the two globals, and the locals
  \<open>should_run\<close> and \<open>args\<close> of \<open>main\<close>.
\<close>

record shell =
  history :: string
  history_available :: bool
  should_run :: bool
  args :: argbuf

subsection \<open>strtok and parse_input\<close>

definition is_delim :: "char \<Rightarrow> bool" where
  "is_delim c = (c = CHR '' '' \<or> c = TAB \<or> c = NL)"

text \<open>
  \<open>strtok\<close> on the rest of the string: skip the leading delimiters; at the end of the
  string there is no token; otherwise the token runs to the next delimiter, which is
  overwritten by the terminator, and the scan resumes after it.
\<close>

definition strtok :: "string \<Rightarrow> (string \<times> string) option" where
  "strtok s =
     (let start = dropWhile is_delim s
      in if start = [] then None
         else Some (takeWhile (\<lambda>c. \<not> is_delim c) start,
                    drop 1 (dropWhile (\<lambda>c. \<not> is_delim c) start)))"

lemma strtok_shorter: "strtok s = Some (t, r) \<Longrightarrow> length r < length s"
proof -
  assume a: "strtok s = Some (t, r)"
  let ?start = "dropWhile is_delim s"
  from a have ne: "?start \<noteq> []" and r: "r = drop 1 (dropWhile (\<lambda>c. \<not> is_delim c) ?start)"
    by (auto simp: strtok_def Let_def split: if_splits)
  have "length (dropWhile (\<lambda>c. \<not> is_delim c) ?start) \<le> length ?start"
    by (rule length_dropWhile_le)
  moreover have "length ?start \<le> length s"
    by (rule length_dropWhile_le)
  moreover have "length r < length ?start"
  proof (cases "dropWhile (\<lambda>c. \<not> is_delim c) ?start = []")
    case True
    with r ne show ?thesis by simp
  next
    case False
    then have "length r < length (dropWhile (\<lambda>c. \<not> is_delim c) ?start)"
      using r by (cases "dropWhile (\<lambda>c. \<not> is_delim c) ?start") auto
    with calculation show ?thesis by simp
  qed
  ultimately show ?thesis by simp
qed

text \<open>The sequence of tokens \<open>strtok\<close> yields on a line, until it returns \<open>NULL\<close>.\<close>

function tokenize :: "string \<Rightarrow> string list" where
  "tokenize s = (case strtok s of None \<Rightarrow> [] | Some (t, r) \<Rightarrow> t # tokenize r)"
  by pat_completeness auto
termination
  by (relation "measure length") (auto simp: strtok_shorter)

declare tokenize.simps [simp del]

text \<open>
  The \<open>while (token != NULL)\<close> loop of \<open>parse_input\<close>: \<open>args[i++] = token\<close>, then the next
  \<open>strtok\<close>. \<open>cap\<close> is the number of slots of the array \<open>args\<close> points to.
\<close>

function tok_loop :: "nat \<Rightarrow> (string \<times> string) option \<Rightarrow> nat \<Rightarrow> argbuf \<Rightarrow> stop + (nat \<times> argbuf)" where
  "tok_loop cap None i a = Inr (i, a)"
| "tok_loop cap (Some (token, rest)) i a =
     (if i < cap then tok_loop cap (strtok rest) (Suc i) (a(i := Some token))
      else Inl ArgsOutOfBounds)"
  by pat_completeness auto
termination
  by (relation "measure (\<lambda>(cap, tk, i, a). case tk of None \<Rightarrow> 0 | Some (t, r) \<Rightarrow> Suc (length r))")
     (auto simp: strtok_shorter split: option.splits)

definition parse_input :: "nat \<Rightarrow> string \<Rightarrow> argbuf \<Rightarrow> stop + (bool \<times> argbuf)" where
  "parse_input cap input a =
     (case tok_loop cap (strtok input) 0 a of
        Inl f \<Rightarrow> Inl f
      | Inr (i, a1) \<Rightarrow>
          if i < cap then
            (let a2 = a1(i := None)
             in if 0 < i \<and> a2 (i - 1) = Some ''&''
                then Inr (True, a2(i - 1 := None))
                else Inr (False, a2))
          else Inl ArgsOutOfBounds)"

text \<open>
  The argument vector a reader of the array sees from index \<open>i\<close>: the strings up to the
  first \<open>NULL\<close>. \<open>None\<close> when the reader runs off the array before it meets one.
\<close>

function argv_from :: "nat \<Rightarrow> argbuf \<Rightarrow> nat \<Rightarrow> string list option" where
  "argv_from cap a i =
     (if i < cap then
        (case a i of
           None \<Rightarrow> Some []
         | Some t \<Rightarrow> (case argv_from cap a (Suc i) of None \<Rightarrow> None | Some ts \<Rightarrow> Some (t # ts)))
      else None)"
  by pat_completeness auto
termination
  by (relation "measure (\<lambda>(cap, a, i). cap - i)") auto

declare argv_from.simps [simp del]

subsection \<open>Built-in commands\<close>

definition builtin_help :: "event list" where
  "builtin_help =
     [Printf (''UnixShell Help:'' @ [NL]),
      Printf (''Type program names and arguments, and hit enter.'' @ [NL]),
      Printf (''Append '' @ [CHR 0x27] @ ''&'' @ [CHR 0x27] @ '' for background execution.'' @ [NL]),
      Printf (''Use '' @ [CHR 0x27] @ ''!!'' @ [CHR 0x27] @ '' to execute the last command.'' @ [NL]),
      Printf (''Built-in commands:'' @ [NL]),
      Printf (''  cd <path> : Change directory'' @ [NL]),
      Printf (''  pwd       : Print working directory'' @ [NL]),
      Printf (''  exit      : Exit the shell'' @ [NL]),
      Printf (''  help      : Show this help message'' @ [NL]),
      Printf (''  history   : Show the last executed command'' @ [NL])]"

definition builtin_history :: "shell \<Rightarrow> event list" where
  "builtin_history s =
     (if history_available s then [Printf (''Last command: '' @ history s @ [NL])]
      else [Printf (''No commands in history.'' @ [NL])])"

definition builtin_pwd :: "os \<Rightarrow> event list" where
  "builtin_pwd os =
     (case getcwd_ret os of
        Some cwd \<Rightarrow> [Getcwd, Printf (cwd @ [NL])]
      | None \<Rightarrow> [Getcwd, Perror ''getcwd() error''])"

text \<open>
  \<open>builtin_cd\<close>: with no second argument \<open>chdir(getenv("HOME"))\<close>, whose return value is
  dropped; otherwise \<open>chdir(args[1])\<close>, and \<open>perror\<close> when it does not return 0.
\<close>

definition builtin_cd :: "os \<Rightarrow> argbuf \<Rightarrow> event list" where
  "builtin_cd os a =
     (if a 1 = None then [Chdir (getenv_HOME os)]
      else if chdir_ret os (a 1) \<noteq> 0 then [Chdir (a 1), Perror ''cd failed'']
      else [Chdir (a 1)])"

subsection \<open>Launching programs\<close>

function dec_nat :: "nat \<Rightarrow> string" where
  "dec_nat n = (if n < 10 then [char_of (48 + n)] else dec_nat (n div 10) @ [char_of (48 + n mod 10)])"
  by pat_completeness auto
termination
  by (relation "measure id") auto

declare dec_nat.simps [simp del]

definition dec_int :: "int \<Rightarrow> string" where
  "dec_int i = (if i < 0 then ''-'' @ dec_nat (nat (- i)) else dec_nat (nat i))"

text \<open>
  What a forked child does with the argument vector it reads from the array:
  \<open>execvp(argv[0], argv)\<close>, and when that returns, the message and \<open>exit(1)\<close>. The child
  never comes back to the loop. \<open>execvp\<close> of a \<open>NULL\<close> program name is undefined in C; the
  model stops there with \<open>NullProgram\<close>.
\<close>

definition child_exec :: "os \<Rightarrow> string list option \<Rightarrow> event list \<times> stop" where
  "child_exec os av =
     (case av of
        None \<Rightarrow> ([], ArgsOutOfBounds)
      | Some [] \<Rightarrow> ([], NullProgram)
      | Some (file # rest) \<Rightarrow>
          if execvp_fails os
          then ([Execvp file (file # rest), Printf (''Command not found: '' @ file @ [NL])], Exited 1)
          else ([Execvp file (file # rest)], ImageReplaced))"

text \<open>
  \<open>execute_pipe\<close>: \<open>args[pipe_idx] = NULL\<close> ends the left command, the right command
  starts at \<open>pipe_idx + 1\<close>. The result is the array as the parent leaves it.
\<close>

definition execute_pipe :: "os \<Rightarrow> argbuf \<Rightarrow> nat \<Rightarrow> event list \<times> (stop + argbuf)" where
  "execute_pipe os a0 pipe_idx =
     (if \<not> pipe_idx < MAX_ARGS then ([], Inl ArgsOutOfBounds)
      else
        let a = a0(pipe_idx := None) in
        if pipe_ret os < 0 then ([Pipe, Perror ''Pipe failed''], Inr a)
        else if fork_ret1 os < 0 then ([Pipe, Fork, Perror ''Fork failed''], Inr a)
        else if fork_ret1 os = 0 then
          (case child_exec os (argv_from MAX_ARGS a 0) of
             (ev, st) \<Rightarrow>
               ([Pipe, Fork, Close ReadEnd, Dup2 WriteEnd STDOUT_FILENO, Close WriteEnd] @ ev, Inl st))
        else if fork_ret2 os < 0 then ([Pipe, Fork, Fork, Perror ''Fork failed''], Inr a)
        else if fork_ret2 os = 0 then
          (case child_exec os (argv_from MAX_ARGS a (pipe_idx + 1)) of
             (ev, st) \<Rightarrow>
               ([Pipe, Fork, Fork, Close WriteEnd, Dup2 ReadEnd STDIN_FILENO, Close ReadEnd] @ ev, Inl st))
        else
          ([Pipe, Fork, Fork, Close ReadEnd, Close WriteEnd,
            Waitpid (fork_ret1 os), Waitpid (fork_ret2 os)], Inr a))"

text \<open>The standard command execution at the end of the loop body.\<close>

definition launch :: "os \<Rightarrow> argbuf \<Rightarrow> bool \<Rightarrow> event list \<times> (stop + unit)" where
  "launch os a background =
     (if fork_ret1 os < 0 then ([Fork, Perror ''Fork failed''], Inr ())
      else if fork_ret1 os = 0 then
        (case child_exec os (argv_from MAX_ARGS a 0) of (ev, st) \<Rightarrow> (Fork # ev, Inl st))
      else if background then
        ([Fork, Printf (''[Process '' @ dec_int (fork_ret1 os) @ '' running in background]'' @ [NL])],
         Inr ())
      else ([Fork, Waitpid (fork_ret1 os)], Inr ()))"

text \<open>
  The search \<open>for (int i = 0; args[i] != NULL; i++)\<close> for the first \<open>"|"\<close>; the result is
  \<open>pipe_idx\<close>, \<open>-1\<close> when there is none.
\<close>

function find_pipe :: "argbuf \<Rightarrow> nat \<Rightarrow> stop + int" where
  "find_pipe a i =
     (if i < MAX_ARGS then
        (case a i of
           None \<Rightarrow> Inr (- 1)
         | Some t \<Rightarrow> if t = ''|'' then Inr (int i) else find_pipe a (Suc i))
      else Inl ArgsOutOfBounds)"
  by pat_completeness auto
termination
  by (relation "measure (\<lambda>(a, i). MAX_ARGS - i)") auto

declare find_pipe.simps [simp del]

subsection \<open>One iteration of the loop\<close>

text \<open>
  From \<open>parse_input\<close> to the end of the body: the built-ins by exact match on \<open>args[0]\<close>,
  then the pipe check, then the standard execution.
\<close>

definition dispatch :: "os \<Rightarrow> shell \<Rightarrow> string \<Rightarrow> event list \<times> (stop + shell)" where
  "dispatch os s input_copy =
     (case parse_input MAX_ARGS input_copy (args s) of
        Inl f \<Rightarrow> ([], Inl f)
      | Inr (background, a) \<Rightarrow>
          let s1 = s\<lparr>args := a\<rparr> in
          (case a 0 of
             None \<Rightarrow> ([], Inr s1)
           | Some cmd \<Rightarrow>
               if cmd = ''exit'' then ([], Inr (s1\<lparr>should_run := False\<rparr>))
               else if cmd = ''cd'' then (builtin_cd os a, Inr s1)
               else if cmd = ''pwd'' then (builtin_pwd os, Inr s1)
               else if cmd = ''help'' then (builtin_help, Inr s1)
               else if cmd = ''history'' then (builtin_history s1, Inr s1)
               else
                 (case find_pipe a 0 of
                    Inl f \<Rightarrow> ([], Inl f)
                  | Inr pipe_idx \<Rightarrow>
                      if pipe_idx \<noteq> - 1 then
                        (if background
                         then ([Printf (''Error: Pipes cannot run in background in this version.'' @ [NL])],
                               Inr s1)
                         else
                           (case execute_pipe os a (nat pipe_idx) of
                              (ev, Inl st) \<Rightarrow> (ev, Inl st)
                            | (ev, Inr a') \<Rightarrow> (ev, Inr (s1\<lparr>args := a'\<rparr>))))
                      else
                        (case launch os a background of
                           (ev, Inl st) \<Rightarrow> (ev, Inl st)
                         | (ev, Inr u) \<Rightarrow> (ev, Inr s1)))))"

text \<open>
  The history feature: on \<open>!!\<close> with no history the notice and \<open>continue\<close> (\<open>None\<close>), on
  \<open>!!\<close> with history the echo and the stored line as the input; any other input is
  copied to the history.
\<close>

definition history_feature :: "shell \<Rightarrow> string \<Rightarrow> event list \<times> (shell \<times> string) option" where
  "history_feature s input =
     (if input = ''!!'' then
        (if \<not> history_available s then ([Printf (''No commands in history.'' @ [NL])], None)
         else ([Printf (history s @ [NL])], Some (s, history s)))
      else ([], Some (s\<lparr>history := input, history_available := True\<rparr>, input)))"

text \<open>
  The body of the loop after \<open>fgets\<close> has filled \<open>input\<close> with \<open>buf\<close>: cut the line at the
  newline (\<open>input[strcspn(input, "\n")] = 0\<close>, here \<open>chomp\<close>), skip an empty line, resolve the
  history, dispatch.
\<close>

definition chomp :: "string \<Rightarrow> string" where
  "chomp buf = takeWhile (\<lambda>c. c \<noteq> NL) buf"

definition loop_body :: "os \<Rightarrow> shell \<Rightarrow> string \<Rightarrow> event list \<times> (stop + shell)" where
  "loop_body os s buf =
     (let input = chomp buf in
      if length input = 0 then ([], Inr s)
      else
        (case history_feature s input of
           (ev, None) \<Rightarrow> (ev, Inr s)
         | (ev, Some (s1, input1)) \<Rightarrow>
             (case dispatch os s1 input1 of (ev1, r) \<Rightarrow> (ev @ ev1, r))))"

subsection \<open>Reading lines and the loop\<close>

text \<open>
  \<open>fgets(input, n, stdin)\<close> reads at most \<open>n - 1\<close> characters and stops after a
  newline; at the end of the input with nothing read it returns \<open>NULL\<close>. The program
  then sees the buffer as a C string, which ends at the first zero byte.
\<close>

fun fgets_read :: "nat \<Rightarrow> string \<Rightarrow> string \<times> string" where
  "fgets_read 0 s = ([], s)"
| "fgets_read (Suc n) [] = ([], [])"
| "fgets_read (Suc n) (c # cs) =
     (if c = NL then ([c], cs)
      else (case fgets_read n cs of (b, r) \<Rightarrow> (c # b, r)))"

definition fgets :: "nat \<Rightarrow> string \<Rightarrow> (string \<times> string) option" where
  "fgets n stdin = (if stdin = [] then None else Some (fgets_read (n - 1) stdin))"

definition c_str :: "string \<Rightarrow> string" where
  "c_str b = takeWhile (\<lambda>c. c \<noteq> NUL) b"

lemma fgets_read_shorter: "0 < n \<Longrightarrow> s \<noteq> [] \<Longrightarrow> fgets_read n s = (b, r) \<Longrightarrow> length r < length s"
proof (induction n s arbitrary: b r rule: fgets_read.induct)
  case (3 n c cs)
  show ?case
  proof (cases "c = NL")
    case True
    with 3 show ?thesis by simp
  next
    case False
    obtain b' r' where br: "fgets_read n cs = (b', r')" by (cases "fgets_read n cs")
    with False 3 have r: "r = r'" by simp
    show ?thesis
    proof (cases "0 < n \<and> cs \<noteq> []")
      case True
      with 3 False br have "length r' < length cs" by simp
      with r show ?thesis by simp
    next
      case False
      with br have "length r' \<le> length cs" by (cases n) auto
      with r show ?thesis by simp
    qed
  qed
qed simp_all

lemma fgets_shorter: "fgets MAX_LINE stdin = Some (b, r) \<Longrightarrow> length r < length stdin"
  by (auto simp: fgets_def MAX_LINE_def split: if_splits intro: fgets_read_shorter [of 79])

text \<open>
  \<open>main\<close>: while \<open>should_run\<close>, reap, prompt, read, run the body. \<open>oracle k\<close> holds the
  answers of the operating system during iteration \<open>k\<close>. The sweep
  \<open>while (waitpid(-1, NULL, WNOHANG) > 0);\<close> is the single event \<open>ReapZombies\<close>: it changes
  no variable of the shell and ends when no finished child is left. At the end of the
  input \<open>fgets\<close> returns \<open>NULL\<close> and the loop is left by \<open>break\<close>.
\<close>

function main_loop :: "(nat \<Rightarrow> os) \<Rightarrow> nat \<Rightarrow> shell \<Rightarrow> string \<Rightarrow> event list \<times> (stop + shell)" where
  "main_loop oracle k s stdin =
     (if should_run s then
        (case fgets MAX_LINE stdin of
           None \<Rightarrow> ([ReapZombies, Printf ''uinxsh> '', Fflush, Printf [NL]], Inr s)
         | Some (buf, rest) \<Rightarrow>
             (case loop_body (oracle k) s (c_str buf) of
                (ev, Inl st) \<Rightarrow> ([ReapZombies, Printf ''uinxsh> '', Fflush] @ ev, Inl st)
              | (ev, Inr s') \<Rightarrow>
                  (case main_loop oracle (Suc k) s' rest of
                     (ev', r) \<Rightarrow> ([ReapZombies, Printf ''uinxsh> '', Fflush] @ ev @ ev', r))))
      else ([], Inr s))"
  by pat_completeness auto
termination
  by (relation "measure (\<lambda>(oracle, k, s, stdin). length stdin)") (auto simp: fgets_shorter)

declare main_loop.simps [simp del]

definition initial :: "argbuf \<Rightarrow> shell" where
  "initial garbage = \<lparr>history = [], history_available = False, should_run = True, args = garbage\<rparr>"

subsection \<open>Vocabulary of the properties\<close>

text \<open>
  The states the loop can be in at the top of an iteration: the state \<open>main\<close> starts in,
  whatever the uninitialised array holds, and every state a completed iteration leaves
  behind, whatever the line read and the answers of the operating system.
\<close>

inductive reachable :: "shell \<Rightarrow> bool" where
  start: "reachable (initial garbage)"
| iteration: "reachable s \<Longrightarrow> should_run s \<Longrightarrow> loop_body os s buf = (ev, Inr s') \<Longrightarrow> reachable s'"

text \<open>The state a recall request (the input \<open>!!\<close>) leaves to the rest of the iteration.\<close>

definition after_recall :: "shell \<Rightarrow> shell" where
  "after_recall s = (case history_feature s ''!!'' of (ev, None) \<Rightarrow> s | (ev, Some (s1, line)) \<Rightarrow> s1)"

text \<open>
  Sample surroundings for concrete runs: an array of null pointers, and an operating
  system where every call succeeds, the children get the process ids 100 and 101, and only
  \<open>/tmp\<close> is a directory one can change to while \<open>HOME\<close> names a directory that does not
  exist.
\<close>

definition zeroed :: argbuf where
  "zeroed k = None"

definition os_sample :: os where
  "os_sample =
     \<lparr>getenv_HOME = Some ''/nonexistent'',
      chdir_ret = (\<lambda>path. if path = Some ''/tmp'' then 0 else - 1),
      getcwd_ret = Some ''/tmp'',
      pipe_ret = 0, fork_ret1 = 100, fork_ret2 = 101, execvp_fails = False\<rparr>"

definition always_sample :: "nat \<Rightarrow> os" where
  "always_sample k = os_sample"

text \<open>A line of 79 characters: forty one-letter tokens, one space between them.\<close>

definition forty_tokens :: string where
  "forty_tokens =
     ''a a a a a a a a a a a a a a a a a a a a a a a a a a a a a a a a a a a a a a a a''"

text \<open>
  The array holds the argument vector \<open>av\<close> from index \<open>i\<close>: its strings in order, then
  the \<open>NULL\<close> that ends it, all inside the array.
\<close>

definition holds_argv :: "nat \<Rightarrow> argbuf \<Rightarrow> nat \<Rightarrow> string list \<Rightarrow> bool" where
  "holds_argv cap a i av =
     (i + length av < cap \<and> (\<forall>k<length av. a (i + k) = Some (av ! k)) \<and> a (i + length av) = None)"

text \<open>
  The tokenizer as the specification words it, on the token sequence: the background
  flag is set when the last token is the literal \<open>&\<close>, and that token is then removed.
\<close>

definition spec_background :: "string list \<Rightarrow> bool" where
  "spec_background ts = (ts \<noteq> [] \<and> last ts = ''&'')"

definition spec_arguments :: "string list \<Rightarrow> string list" where
  "spec_arguments ts = (if ts \<noteq> [] \<and> last ts = ''&'' then butlast ts else ts)"


section \<open>Properties\<close>

subsection \<open>The tokenizer\<close>

lemma tokenize_None: "strtok s = None \<Longrightarrow> tokenize s = []"
  by (simp add: tokenize.simps)

lemma tokenize_Some: "strtok s = Some (t, r) \<Longrightarrow> tokenize s = t # tokenize r"
  by (simp add: tokenize.simps)

lemma tok_loop_overflow:
  "i \<le> cap \<Longrightarrow> cap < i + length (tokenize s) \<Longrightarrow> tok_loop cap (strtok s) i a = Inl ArgsOutOfBounds"
proof (induction s arbitrary: i a rule: tokenize.induct)
  case (1 s)
  show ?case
  proof (cases "strtok s")
    case None
    with 1(2,3) show ?thesis by (simp add: tokenize_None)
  next
    case (Some p)
    obtain t r where p: "p = (t, r)" by (cases p)
    with Some have st: "strtok s = Some (t, r)" by simp
    from 1(3) st have len: "cap < Suc i + length (tokenize r)" by (simp add: tokenize_Some)
    show ?thesis
    proof (cases "i < cap")
      case True
      then have "Suc i \<le> cap" by simp
      with True st "1.IH" [OF st refl _ len] show ?thesis by simp
    next
      case False
      with st show ?thesis by simp
    qed
  qed
qed

lemma tok_loop_stores:
  "i + length (tokenize s) \<le> cap \<Longrightarrow>
   tok_loop cap (strtok s) i a =
     Inr (i + length (tokenize s),
          \<lambda>k. if i \<le> k \<and> k < i + length (tokenize s) then Some (tokenize s ! (k - i)) else a k)"
proof (induction s arbitrary: i a rule: tokenize.induct)
  case (1 s)
  show ?case
  proof (cases "strtok s")
    case None
    then show ?thesis by (auto simp: tokenize_None fun_eq_iff)
  next
    case (Some p)
    obtain t r where p: "p = (t, r)" by (cases p)
    with Some have st: "strtok s = Some (t, r)" by simp
    then have tk: "tokenize s = t # tokenize r" by (rule tokenize_Some)
    from 1(2) tk have len: "Suc i + length (tokenize r) \<le> cap" by simp
    then have ic: "i < cap" by simp
    have f: "(\<lambda>k. if Suc i \<le> k \<and> k < Suc i + length (tokenize r)
                        then Some (tokenize r ! (k - Suc i)) else (a(i := Some t)) k)
                 = (\<lambda>k. if i \<le> k \<and> k < i + length (tokenize s)
                        then Some (tokenize s ! (k - i)) else a k)"
      unfolding tk by (rule ext) (auto simp: nth_Cons' Suc_diff_Suc less_Suc_eq_le)
    have "tok_loop cap (strtok s) i a = tok_loop cap (strtok r) (Suc i) (a(i := Some t))"
      using st ic by simp
    also have "\<dots> = Inr (Suc i + length (tokenize r),
          \<lambda>k. if Suc i \<le> k \<and> k < Suc i + length (tokenize r)
              then Some (tokenize r ! (k - Suc i)) else (a(i := Some t)) k)"
      by (rule "1.IH" [OF st refl len])
    also have "\<dots> = Inr (i + length (tokenize s),
          \<lambda>k. if i \<le> k \<and> k < i + length (tokenize s) then Some (tokenize s ! (k - i)) else a k)"
      unfolding f by (simp add: tk)
    finally show ?thesis .
  qed
qed


lemma parse_input_holds:
  assumes len: "length (tokenize input) < cap"
  shows "\<exists>a'. parse_input cap input a = Inr (spec_background (tokenize input), a')
              \<and> holds_argv cap a' 0 (spec_arguments (tokenize input))"
proof -
  let ?ts = "tokenize input"
  let ?n = "length ?ts"
  let ?a1 = "\<lambda>k. if 0 \<le> k \<and> k < 0 + ?n then Some (?ts ! (k - 0)) else a k"
  let ?a2 = "?a1(?n := None)"
  have tl: "tok_loop cap (strtok input) 0 a = Inr (0 + ?n, ?a1)"
    using len by (intro tok_loop_stores) simp
  show ?thesis
  proof (cases "spec_background ?ts")
    case True
    then have ne: "?ts \<noteq> []" and la: "last ?ts = ''&''"
      by (simp_all add: spec_background_def)
    from ne have pos: "0 < ?n" by simp
    from pos have neq: "?n - 1 \<noteq> ?n" and lt: "?n - 1 < ?n" by arith+
    from ne la neq lt have amp: "?a2 (?n - 1) = Some ''&''"
      by (simp add: last_conv_nth)
    have p: "parse_input cap input a = Inr (True, ?a2(?n - 1 := None))"
      unfolding parse_input_def tl using len pos amp by (simp add: Let_def)
    have h: "holds_argv cap (?a2(?n - 1 := None)) 0 (butlast ?ts)"
      unfolding holds_argv_def using len pos by (auto simp: nth_butlast)
    from p h True ne la show ?thesis
      by (simp add: spec_arguments_def)
  next
    case False
    have noamp: "\<not> (0 < ?n \<and> ?a2 (?n - 1) = Some ''&'')"
    proof
      assume c: "0 < ?n \<and> ?a2 (?n - 1) = Some ''&''"
      then have "?ts \<noteq> []" by auto
      moreover from c have "last ?ts = ''&''"
        by (auto simp: last_conv_nth split: if_splits)
      ultimately show False using False by (simp add: spec_background_def)
    qed
    have p: "parse_input cap input a = Inr (False, ?a2)"
      unfolding parse_input_def tl using len noamp by (simp add: Let_def)
    have h: "holds_argv cap ?a2 0 ?ts"
      unfolding holds_argv_def using len by auto
    from p h False show ?thesis
      by (auto simp: spec_arguments_def spec_background_def)
  qed
qed

lemma parse_input_overflow:
  assumes "cap \<le> length (tokenize input)"
  shows "parse_input cap input a = Inl ArgsOutOfBounds"
proof (cases "cap = length (tokenize input)")
  case True
  then have "tok_loop cap (strtok input) 0 a = Inr (0 + length (tokenize input),
      \<lambda>k. if 0 \<le> k \<and> k < 0 + length (tokenize input) then Some (tokenize input ! (k - 0)) else a k)"
    by (intro tok_loop_stores) simp
  with True show ?thesis
    by (simp add: parse_input_def)
next
  case False
  with assms have "tok_loop cap (strtok input) 0 a = Inl ArgsOutOfBounds"
    by (intro tok_loop_overflow) simp_all
  then show ?thesis
    by (simp add: parse_input_def)
qed

lemma holds_argv_argv_from: "holds_argv cap a i av \<Longrightarrow> argv_from cap a i = Some av"
proof (induction av arbitrary: i)
  case Nil
  then show ?case
    by (simp add: holds_argv_def argv_from.simps [of cap a i])
next
  case (Cons t ts)
  from Cons.prems have "holds_argv cap a (Suc i) ts"
    unfolding holds_argv_def
    by (auto simp: less_Suc_eq_0_disj dest: spec [of _ "Suc k" for k])
  then have "argv_from cap a (Suc i) = Some ts" by (rule Cons.IH)
  moreover from Cons.prems have "i < cap" "a i = Some t"
    by (auto simp: holds_argv_def)
  ultimately show ?case
    by (simp add: argv_from.simps [of cap a i])
qed


text \<open>
  C1. Whenever the array has room for the tokens and the terminating \<open>NULL\<close>: if the last
  token of the line is the literal \<open>&\<close>, \<open>parse_input\<close> returns true and the argument
  sequence left in the array is the token sequence without that last \<open>&\<close>; for every
  other line it returns false and the argument sequence is the token sequence.
\<close>

theorem parse_input_background:
  assumes "length (tokenize input) < cap"
  shows "(tokenize input \<noteq> [] \<and> last (tokenize input) = ''&'' \<longrightarrow>
           (\<exists>a'. parse_input cap input a = Inr (True, a')
                 \<and> argv_from cap a' 0 = Some (butlast (tokenize input))))
       \<and> (\<not> (tokenize input \<noteq> [] \<and> last (tokenize input) = ''&'') \<longrightarrow>
           (\<exists>a'. parse_input cap input a = Inr (False, a')
                 \<and> argv_from cap a' 0 = Some (tokenize input)))"
proof -
  from parse_input_holds [OF assms, of a] obtain a'
    where p: "parse_input cap input a = Inr (spec_background (tokenize input), a')"
      and h: "holds_argv cap a' 0 (spec_arguments (tokenize input))"
    by blast
  from h have "argv_from cap a' 0 = Some (spec_arguments (tokenize input))"
    by (rule holds_argv_argv_from)
  with p show ?thesis
    by (auto simp: spec_background_def spec_arguments_def)
qed

lemma tokenize_ls_amp: "tokenize ''ls -l &'' = [''ls'', ''-l'', ''&'']"
  by code_simp

lemma tokenize_ls: "tokenize ''  ls  -l '' = [''ls'', ''-l'']"
  by code_simp

theorem parse_input_background_witness:
  "length (tokenize ''ls -l &'') < MAX_ARGS
   \<and> (\<exists>a'. parse_input MAX_ARGS ''ls -l &'' (\<lambda>k. None) = Inr (True, a')
          \<and> argv_from MAX_ARGS a' 0 = Some [''ls'', ''-l''])
   \<and> length (tokenize ''  ls  -l '') < MAX_ARGS
   \<and> (\<exists>a'. parse_input MAX_ARGS ''  ls  -l '' (\<lambda>k. None) = Inr (False, a')
          \<and> argv_from MAX_ARGS a' 0 = Some [''ls'', ''-l''])"
proof -
  have l1: "length (tokenize ''ls -l &'') < MAX_ARGS"
    by (simp add: tokenize_ls_amp MAX_ARGS_def)
  have l2: "length (tokenize ''  ls  -l '') < MAX_ARGS"
    by (simp add: tokenize_ls MAX_ARGS_def)
  from parse_input_background [OF l1, of "\<lambda>k. None"]
       parse_input_background [OF l2, of "\<lambda>k. None"] l1 l2
  show ?thesis
    by (simp add: tokenize_ls_amp tokenize_ls)
qed

subsection \<open>Reading the array\<close>

lemma holds_argv_Nil: "holds_argv cap a i [] \<Longrightarrow> a i = None"
  by (simp add: holds_argv_def)

lemma holds_argv_Cons: "holds_argv cap a i (t # ts) \<Longrightarrow> a i = Some t \<and> holds_argv cap a (Suc i) ts"
  unfolding holds_argv_def
  by (auto simp: less_Suc_eq_0_disj dest: spec [of _ "Suc k" for k])

lemma find_pipe_holds:
  "holds_argv MAX_ARGS a i av \<Longrightarrow>
   find_pipe a i = Inr (if ''|'' \<in> set av then int (i + length (takeWhile (\<lambda>t. t \<noteq> ''|'') av)) else - 1)"
proof (induction av arbitrary: i)
  case Nil
  then show ?case
    by (simp add: holds_argv_def find_pipe.simps [of a i])
next
  case (Cons t ts)
  from Cons.prems have h: "a i = Some t" "holds_argv MAX_ARGS a (Suc i) ts"
    by (simp_all add: holds_argv_Cons)
  from Cons.prems have b: "i < MAX_ARGS"
    by (simp add: holds_argv_def)
  show ?case
    using h(1) b Cons.IH [OF h(2)]
    by (simp add: find_pipe.simps [of a i])
qed

lemma holds_argv_split:
  assumes h: "holds_argv cap a 0 av" and p: "''|'' \<in> set av"
  defines "idx \<equiv> length (takeWhile (\<lambda>t. t \<noteq> ''|'') av)"
  shows "holds_argv cap (a(idx := None)) 0 (takeWhile (\<lambda>t. t \<noteq> ''|'') av)"
    and "holds_argv cap (a(idx := None)) (idx + 1) (tl (dropWhile (\<lambda>t. t \<noteq> ''|'') av))"
proof -
  let ?l = "takeWhile (\<lambda>t. t \<noteq> ''|'') av"
  let ?d = "dropWhile (\<lambda>t. t \<noteq> ''|'') av"
  from p have dne: "?d \<noteq> []" by simp
  have av: "av = ?l @ ?d" by simp
  from dne have len: "length av = idx + 1 + length (tl ?d)"
    unfolding idx_def by (subst av) (simp del: takeWhile_dropWhile_id)
  have lt: "idx < length av" using len by simp
  from h lt show "holds_argv cap (a(idx := None)) 0 ?l"
    unfolding holds_argv_def idx_def [symmetric]
    by (auto simp: idx_def takeWhile_nth)
  have nth: "\<And>k. k < length (tl ?d) \<Longrightarrow> av ! (idx + 1 + k) = tl ?d ! k"
  proof -
    fix k assume k: "k < length (tl ?d)"
    have "av ! (idx + 1 + k) = ?d ! (1 + k)"
      unfolding idx_def by (subst av) (simp add: nth_append del: takeWhile_dropWhile_id)
    also have "\<dots> = tl ?d ! k" using dne k by (simp add: nth_tl)
    finally show "av ! (idx + 1 + k) = tl ?d ! k" .
  qed
  from h len show "holds_argv cap (a(idx := None)) (idx + 1) (tl ?d)"
    unfolding holds_argv_def using nth by auto
qed


subsection \<open>The loop body\<close>

lemma tokenize_Nil: "tokenize [] = []"
  by (simp add: tokenize.simps strtok_def)

lemma tokenize_recall: "tokenize ''!!'' = [''!!'']"
  by code_simp

lemma spec_arguments_hd:
  "t \<noteq> ''&'' \<Longrightarrow> \<exists>rest'. spec_arguments (t # rest) = t # rest'"
  by (cases rest) (auto simp: spec_arguments_def)

lemma loop_body_record:
  assumes "chomp buf = line" "line \<noteq> []" "line \<noteq> ''!!''"
  shows "loop_body os s buf = dispatch os (s\<lparr>history := line, history_available := True\<rparr>) line"
  using assms by (simp add: loop_body_def history_feature_def)

lemma loop_body_recall:
  assumes "chomp buf = ''!!''" "history_available s"
  shows "loop_body os s buf =
           (Printf (history s @ [NL]) # fst (dispatch os s (history s)), snd (dispatch os s (history s)))"
  using assms by (simp add: loop_body_def history_feature_def split: prod.splits)

lemma loop_body_no_history:
  assumes "chomp buf = ''!!''" "\<not> history_available s"
  shows "loop_body os s buf = ([Printf (''No commands in history.'' @ [NL])], Inr s)"
  using assms by (simp add: loop_body_def history_feature_def)

lemma dispatch_builtin:
  assumes len: "length (tokenize line) < MAX_ARGS"
      and tk: "tokenize line = t # rest"
      and b: "t \<in> {''exit'', ''cd'', ''pwd'', ''help'', ''history''}"
  shows "\<exists>a. argv_from MAX_ARGS a 0 = Some (spec_arguments (t # rest))
           \<and> dispatch os s line =
               (if t = ''exit'' then ([], Inr (s\<lparr>args := a, should_run := False\<rparr>))
                else if t = ''cd'' then (builtin_cd os a, Inr (s\<lparr>args := a\<rparr>))
                else if t = ''pwd'' then (builtin_pwd os, Inr (s\<lparr>args := a\<rparr>))
                else if t = ''help'' then (builtin_help, Inr (s\<lparr>args := a\<rparr>))
                else (builtin_history (s\<lparr>args := a\<rparr>), Inr (s\<lparr>args := a\<rparr>)))"
proof -
  from parse_input_holds [OF len, of "args s"] tk obtain a
    where p: "parse_input MAX_ARGS line (args s) = Inr (spec_background (t # rest), a)"
      and h: "holds_argv MAX_ARGS a 0 (spec_arguments (t # rest))"
    by auto
  from b have "t \<noteq> ''&''" by auto
  then obtain rest' where av: "spec_arguments (t # rest) = t # rest'"
    using spec_arguments_hd by blast
  with h have a0: "a 0 = Some t" by (simp add: holds_argv_Cons)
  from h have "argv_from MAX_ARGS a 0 = Some (spec_arguments (t # rest))"
    by (rule holds_argv_argv_from)
  moreover from b have "dispatch os s line =
               (if t = ''exit'' then ([], Inr (s\<lparr>args := a, should_run := False\<rparr>))
                else if t = ''cd'' then (builtin_cd os a, Inr (s\<lparr>args := a\<rparr>))
                else if t = ''pwd'' then (builtin_pwd os, Inr (s\<lparr>args := a\<rparr>))
                else if t = ''help'' then (builtin_help, Inr (s\<lparr>args := a\<rparr>))
                else (builtin_history (s\<lparr>args := a\<rparr>), Inr (s\<lparr>args := a\<rparr>)))"
    unfolding dispatch_def p using a0 by (auto simp: Let_def)
  ultimately show ?thesis by blast
qed

lemma builtin_events_no_fork:
  "Fork \<notin> set (builtin_cd os a) \<and> Pipe \<notin> set (builtin_cd os a)"
  "Fork \<notin> set (builtin_pwd os) \<and> Pipe \<notin> set (builtin_pwd os)"
  "Fork \<notin> set builtin_help \<and> Pipe \<notin> set builtin_help"
  "Fork \<notin> set (builtin_history s) \<and> Pipe \<notin> set (builtin_history s)"
  by (simp_all add: builtin_cd_def builtin_pwd_def builtin_help_def builtin_history_def
      split: option.splits)

text \<open>
  C10. A line whose first token is one of \<open>exit\<close>, \<open>cd\<close>, \<open>pwd\<close>, \<open>help\<close>, \<open>history\<close> (and
  that fits the argument array) runs that built-in in the shell process, whatever follows
  on the line: the trace of the iteration is the built-in's, it holds no \<open>pipe\<close> and no
  \<open>fork\<close>, and the process stays in the loop (which \<open>exit\<close> ends by clearing \<open>should_run\<close>).
\<close>

theorem builtin_before_pipe:
  assumes tk: "tokenize (chomp buf) = t # rest"
      and b: "t \<in> {''exit'', ''cd'', ''pwd'', ''help'', ''history''}"
      and len: "length (t # rest) < MAX_ARGS"
  shows "Fork \<notin> set (fst (loop_body os s buf)) \<and> Pipe \<notin> set (fst (loop_body os s buf))
       \<and> (\<exists>s' a. snd (loop_body os s buf) = Inr s'
              \<and> argv_from MAX_ARGS a 0 = Some (spec_arguments (t # rest))
              \<and> should_run s' = (should_run s \<and> t \<noteq> ''exit'')
              \<and> fst (loop_body os s buf) =
                  (if t = ''exit'' then []
                   else if t = ''cd'' then builtin_cd os a
                   else if t = ''pwd'' then builtin_pwd os
                   else if t = ''help'' then builtin_help
                   else builtin_history s'))"
proof -
  let ?line = "chomp buf"
  let ?s1 = "s\<lparr>history := ?line, history_available := True\<rparr>"
  from tk have ne: "?line \<noteq> []" using tokenize_Nil by auto
  from tk b have nr: "?line \<noteq> ''!!''" using tokenize_recall by auto
  have lb: "loop_body os s buf = dispatch os ?s1 ?line"
    using ne nr by (intro loop_body_record) simp_all
  from len tk have len': "length (tokenize ?line) < MAX_ARGS" by simp
  from dispatch_builtin [OF len' tk b, of os ?s1] obtain a
    where av: "argv_from MAX_ARGS a 0 = Some (spec_arguments (t # rest))"
      and d: "dispatch os ?s1 ?line =
               (if t = ''exit'' then ([], Inr (?s1\<lparr>args := a, should_run := False\<rparr>))
                else if t = ''cd'' then (builtin_cd os a, Inr (?s1\<lparr>args := a\<rparr>))
                else if t = ''pwd'' then (builtin_pwd os, Inr (?s1\<lparr>args := a\<rparr>))
                else if t = ''help'' then (builtin_help, Inr (?s1\<lparr>args := a\<rparr>))
                else (builtin_history (?s1\<lparr>args := a\<rparr>), Inr (?s1\<lparr>args := a\<rparr>)))"
    by blast
  have nf: "Fork \<notin> set (fst (loop_body os s buf)) \<and> Pipe \<notin> set (fst (loop_body os s buf))"
    unfolding lb d using builtin_events_no_fork by simp
  have "\<exists>s'. snd (loop_body os s buf) = Inr s'
              \<and> should_run s' = (should_run s \<and> t \<noteq> ''exit'')
              \<and> fst (loop_body os s buf) =
                  (if t = ''exit'' then []
                   else if t = ''cd'' then builtin_cd os a
                   else if t = ''pwd'' then builtin_pwd os
                   else if t = ''help'' then builtin_help
                   else builtin_history s')"
    unfolding lb d by simp
  with nf av show ?thesis by blast
qed

lemma tokenize_cd_pipe: "tokenize (chomp ''cd /tmp | wc'') = [''cd'', ''/tmp'', ''|'', ''wc'']"
  by code_simp

theorem builtin_before_pipe_witness:
  "tokenize (chomp ''cd /tmp | wc'') = ''cd'' # [''/tmp'', ''|'', ''wc'']
   \<and> ''cd'' \<in> {''exit'', ''cd'', ''pwd'', ''help'', ''history''}
   \<and> length (''cd'' # [''/tmp'', ''|'', ''wc'']) < MAX_ARGS
   \<and> Fork \<notin> set (fst (loop_body os_sample (initial zeroed) ''cd /tmp | wc''))
   \<and> Pipe \<notin> set (fst (loop_body os_sample (initial zeroed) ''cd /tmp | wc''))"
proof -
  have b: "''cd'' \<in> {''exit'', ''cd'', ''pwd'', ''help'', ''history''}" by simp
  have l: "length (''cd'' # [''/tmp'', ''|'', ''wc'']) < MAX_ARGS" by (simp add: MAX_ARGS_def)
  from builtin_before_pipe [OF tokenize_cd_pipe [simplified] b l, of os_sample "initial zeroed"]
  show ?thesis using tokenize_cd_pipe b l by simp
qed

subsection \<open>Pipelines\<close>

lemma spec_arguments_ne:
  "spec_arguments (t # rest) \<noteq> [] \<Longrightarrow> \<exists>rest'. spec_arguments (t # rest) = t # rest'"
  by (cases rest) (auto simp: spec_arguments_def split: if_splits)

lemma execute_pipe_holds:
  assumes h: "holds_argv MAX_ARGS a 0 av" and p: "''|'' \<in> set av"
  shows "execute_pipe os a (length (takeWhile (\<lambda>t. t \<noteq> ''|'') av)) =
     (let a' = a(length (takeWhile (\<lambda>t. t \<noteq> ''|'') av) := None);
          left = takeWhile (\<lambda>t. t \<noteq> ''|'') av;
          right = tl (dropWhile (\<lambda>t. t \<noteq> ''|'') av) in
      if pipe_ret os < 0 then ([Pipe, Perror ''Pipe failed''], Inr a')
      else if fork_ret1 os < 0 then ([Pipe, Fork, Perror ''Fork failed''], Inr a')
      else if fork_ret1 os = 0 then
        ([Pipe, Fork, Close ReadEnd, Dup2 WriteEnd STDOUT_FILENO, Close WriteEnd]
           @ fst (child_exec os (Some left)), Inl (snd (child_exec os (Some left))))
      else if fork_ret2 os < 0 then ([Pipe, Fork, Fork, Perror ''Fork failed''], Inr a')
      else if fork_ret2 os = 0 then
        ([Pipe, Fork, Fork, Close WriteEnd, Dup2 ReadEnd STDIN_FILENO, Close ReadEnd]
           @ fst (child_exec os (Some right)), Inl (snd (child_exec os (Some right))))
      else
        ([Pipe, Fork, Fork, Close ReadEnd, Close WriteEnd,
          Waitpid (fork_ret1 os), Waitpid (fork_ret2 os)], Inr a'))"
proof -
  let ?idx = "length (takeWhile (\<lambda>t. t \<noteq> ''|'') av)"
  have "?idx \<le> length av" by (rule length_takeWhile_le)
  with h have b: "?idx < MAX_ARGS" by (simp add: holds_argv_def)
  have l: "argv_from MAX_ARGS (a(?idx := None)) 0 = Some (takeWhile (\<lambda>t. t \<noteq> ''|'') av)"
    by (rule holds_argv_argv_from) (rule holds_argv_split(1) [OF h p])
  have r: "argv_from MAX_ARGS (a(?idx := None)) (?idx + 1) = Some (tl (dropWhile (\<lambda>t. t \<noteq> ''|'') av))"
    by (rule holds_argv_argv_from) (rule holds_argv_split(2) [OF h p])
  show ?thesis
    unfolding execute_pipe_def Let_def l r using b
    by (simp split: prod.splits)
qed

lemma dispatch_pipe:
  assumes len: "length (tokenize line) < MAX_ARGS"
      and tk: "tokenize line = t # rest"
      and nb: "t \<notin> {''exit'', ''cd'', ''pwd'', ''help'', ''history''}"
      and p: "''|'' \<in> set (spec_arguments (t # rest))"
  shows "\<exists>a. holds_argv MAX_ARGS a 0 (spec_arguments (t # rest))
          \<and> parse_input MAX_ARGS line (args s) = Inr (spec_background (t # rest), a)
          \<and> dispatch os s line =
             (if spec_background (t # rest)
              then ([Printf (''Error: Pipes cannot run in background in this version.'' @ [NL])],
                    Inr (s\<lparr>args := a\<rparr>))
              else
                (case execute_pipe os a (length (takeWhile (\<lambda>x. x \<noteq> ''|'') (spec_arguments (t # rest)))) of
                   (ev, Inl st) \<Rightarrow> (ev, Inl st)
                 | (ev, Inr a') \<Rightarrow> (ev, Inr (s\<lparr>args := a'\<rparr>))))"
proof -
  let ?av = "spec_arguments (t # rest)"
  from parse_input_holds [OF len, of "args s"] tk obtain a
    where pi: "parse_input MAX_ARGS line (args s) = Inr (spec_background (t # rest), a)"
      and h: "holds_argv MAX_ARGS a 0 ?av"
    by auto
  from p have "?av \<noteq> []" by auto
  then obtain rest' where av: "?av = t # rest'"
    using spec_arguments_ne by blast
  with h have a0: "a 0 = Some t" by (simp add: holds_argv_Cons)
  have fp: "find_pipe a 0 = Inr (int (length (takeWhile (\<lambda>x. x \<noteq> ''|'') ?av)))"
    using find_pipe_holds [OF h] p by simp
  have "dispatch os s line =
             (if spec_background (t # rest)
              then ([Printf (''Error: Pipes cannot run in background in this version.'' @ [NL])],
                    Inr (s\<lparr>args := a\<rparr>))
              else
                (case execute_pipe os a (length (takeWhile (\<lambda>x. x \<noteq> ''|'') ?av)) of
                   (ev, Inl st) \<Rightarrow> (ev, Inl st)
                 | (ev, Inr a') \<Rightarrow> (ev, Inr (s\<lparr>args := a'\<rparr>))))"
    unfolding dispatch_def pi using a0 nb fp
    by (simp add: Let_def split: prod.splits sum.splits)
  with h pi show ?thesis by blast
qed



lemma loop_body_pipe_line:
  assumes tk: "tokenize (chomp buf) = ts" and p: "''|'' \<in> set ts"
  shows "loop_body os s buf =
           dispatch os (s\<lparr>history := chomp buf, history_available := True\<rparr>) (chomp buf)"
proof -
  from tk p have "chomp buf \<noteq> []" using tokenize_Nil by auto
  moreover from tk p have "chomp buf \<noteq> ''!!''" using tokenize_recall by auto
  ultimately show ?thesis by (intro loop_body_record) simp_all
qed

lemma in_butlast: "x \<in> set xs \<Longrightarrow> x \<noteq> last xs \<Longrightarrow> x \<in> set (butlast xs)"
proof -
  assume a: "x \<in> set xs" "x \<noteq> last xs"
  then have "xs \<noteq> []" by auto
  then have "xs = butlast xs @ [last xs]" by simp
  then have "set xs = set (butlast xs) \<union> {last xs}"
    by (metis list.set(1) list.simps(15) set_append Un_insert_right sup_bot.right_neutral)
  with a show ?thesis by auto
qed

lemma pipe_in_spec_arguments:
  "''|'' \<in> set ts \<Longrightarrow> ''|'' \<in> set (spec_arguments ts)"
  by (auto simp: spec_arguments_def intro: in_butlast)

lemma takeWhile_spec_arguments:
  assumes "''|'' \<in> set ts"
  shows "takeWhile (\<lambda>x. x \<noteq> ''|'') (spec_arguments ts) = takeWhile (\<lambda>x. x \<noteq> ''|'') ts"
proof (cases "ts \<noteq> [] \<and> last ts = ''&''")
  case True
  then have "ts \<noteq> []" by simp
  then have ts: "ts = butlast ts @ [last ts]" by simp
  from assms True have "''|'' \<in> set (butlast ts)" by (intro in_butlast) auto
  then have "takeWhile (\<lambda>x. x \<noteq> ''|'') (butlast ts @ [last ts]) = takeWhile (\<lambda>x. x \<noteq> ''|'') (butlast ts)"
    by (intro takeWhile_append1) auto
  with ts True show ?thesis by (simp add: spec_arguments_def)
next
  case False
  then show ?thesis by (auto simp: spec_arguments_def)
qed

text \<open>
  C5, as amended. A line that holds a pipe separator and ends in the background marker,
  whose first token is not a built-in and which fits the argument array, prints the
  message that pipes cannot run in the background and does nothing else: the trace is
  that one message, so no channel and no child is created, and the loop goes on.
\<close>

theorem pipe_with_background:
  assumes tk: "tokenize (chomp buf) = t # rest"
      and len: "length (t # rest) < MAX_ARGS"
      and nb: "t \<notin> {''exit'', ''cd'', ''pwd'', ''help'', ''history''}"
      and p: "''|'' \<in> set (t # rest)"
      and bg: "last (t # rest) = ''&''"
  shows "\<exists>s'. loop_body os s buf =
                ([Printf (''Error: Pipes cannot run in background in this version.'' @ [NL])], Inr s')
              \<and> should_run s' = should_run s"
proof -
  let ?s1 = "s\<lparr>history := chomp buf, history_available := True\<rparr>"
  have lb: "loop_body os s buf = dispatch os ?s1 (chomp buf)"
    using tk p by (rule loop_body_pipe_line)
  from len tk have len': "length (tokenize (chomp buf)) < MAX_ARGS" by simp
  from p have p': "''|'' \<in> set (spec_arguments (t # rest))" by (rule pipe_in_spec_arguments)
  from bg have b: "spec_background (t # rest)" by (simp add: spec_background_def)
  from dispatch_pipe [OF len' tk nb p', of ?s1 os] b lb show ?thesis by auto
qed


text \<open>
  C5 as stated fails on a line that starts with a built-in: \<open>help | wc &\<close> holds a pipe
  separator and ends in the background marker, and the shell prints the help text, not
  the message.
\<close>

theorem pipe_with_background_counterexample:
  "tokenize (chomp ''help | wc &'') = [''help'', ''|'', ''wc'', ''&'']
   \<and> fst (loop_body os_sample (initial zeroed) ''help | wc &'') = builtin_help
   \<and> Printf (''Error: Pipes cannot run in background in this version.'' @ [NL])
        \<notin> set (fst (loop_body os_sample (initial zeroed) ''help | wc &''))"
  by code_simp

text \<open>
  C4 fails on the code: an empty side of a pipeline is not detected and nothing is
  reported. On \<open>ls |\<close>, where nothing follows the separator, the shell prints nothing,
  creates the channel and forks both children, and the second child calls \<open>execvp\<close> with
  a \<open>NULL\<close> program name; on \<open>| wc\<close>, where nothing precedes it, the first child does. The
  single-command path returns to the prompt on an empty argument vector (the line \<open>&\<close>)
  without forking.
\<close>

theorem empty_pipeline_side_unchecked:
  "tokenize (chomp ''ls |'') = [''ls'', ''|'']
   \<and> fst (loop_body os_sample (initial zeroed) ''ls |'')
       = [Pipe, Fork, Fork, Close ReadEnd, Close WriteEnd, Waitpid 100, Waitpid 101]
   \<and> fst (loop_body (os_sample\<lparr>fork_ret2 := 0\<rparr>) (initial zeroed) ''ls |'')
       = [Pipe, Fork, Fork, Close WriteEnd, Dup2 ReadEnd STDIN_FILENO, Close ReadEnd]
   \<and> (case snd (loop_body (os_sample\<lparr>fork_ret2 := 0\<rparr>) (initial zeroed) ''ls |'') of
         Inl st \<Rightarrow> st = NullProgram
       | Inr s' \<Rightarrow> False)
   \<and> tokenize (chomp ''| wc'') = [''|'', ''wc'']
   \<and> fst (loop_body os_sample (initial zeroed) ''| wc'')
       = [Pipe, Fork, Fork, Close ReadEnd, Close WriteEnd, Waitpid 100, Waitpid 101]
   \<and> fst (loop_body (os_sample\<lparr>fork_ret1 := 0\<rparr>) (initial zeroed) ''| wc'')
       = [Pipe, Fork, Close ReadEnd, Dup2 WriteEnd STDOUT_FILENO, Close WriteEnd]
   \<and> (case snd (loop_body (os_sample\<lparr>fork_ret1 := 0\<rparr>) (initial zeroed) ''| wc'') of
         Inl st \<Rightarrow> st = NullProgram
       | Inr s' \<Rightarrow> False)
   \<and> fst (loop_body os_sample (initial zeroed) ''&'') = []"
  by code_simp

text \<open>
  C8. On a line with one or more pipe separators whose first token is not a built-in (and
  which fits the argument array), the index the search finds is that of the first
  \<open>|\<close>. When the pipeline runs (no background marker), the first child executes the
  tokens strictly before it and the second child executes all the tokens strictly after
  it, later \<open>|\<close> tokens included as plain arguments.
\<close>

theorem pipe_split_at_first:
  assumes tk: "tokenize (chomp buf) = t # rest"
      and len: "length (t # rest) < MAX_ARGS"
      and nb: "t \<notin> {''exit'', ''cd'', ''pwd'', ''help'', ''history''}"
      and p: "''|'' \<in> set (t # rest)"
  shows "(\<exists>bg a. parse_input MAX_ARGS (chomp buf) (args s) = Inr (bg, a)
            \<and> find_pipe a 0 = Inr (int (length (takeWhile (\<lambda>x. x \<noteq> ''|'') (t # rest)))))
       \<and> (last (t # rest) \<noteq> ''&'' \<and> 0 \<le> pipe_ret os \<and> fork_ret1 os = 0 \<longrightarrow>
            loop_body os s buf =
              ([Pipe, Fork, Close ReadEnd, Dup2 WriteEnd STDOUT_FILENO, Close WriteEnd]
                 @ fst (child_exec os (Some (takeWhile (\<lambda>x. x \<noteq> ''|'') (t # rest)))),
               Inl (snd (child_exec os (Some (takeWhile (\<lambda>x. x \<noteq> ''|'') (t # rest)))))))
       \<and> (last (t # rest) \<noteq> ''&'' \<and> 0 \<le> pipe_ret os \<and> 0 < fork_ret1 os \<and> fork_ret2 os = 0 \<longrightarrow>
            loop_body os s buf =
              ([Pipe, Fork, Fork, Close WriteEnd, Dup2 ReadEnd STDIN_FILENO, Close ReadEnd]
                 @ fst (child_exec os (Some (tl (dropWhile (\<lambda>x. x \<noteq> ''|'') (t # rest))))),
               Inl (snd (child_exec os (Some (tl (dropWhile (\<lambda>x. x \<noteq> ''|'') (t # rest))))))))"
proof -
  let ?s1 = "s\<lparr>history := chomp buf, history_available := True\<rparr>"
  have lb: "loop_body os s buf = dispatch os ?s1 (chomp buf)"
    using tk p by (rule loop_body_pipe_line)
  from len tk have len': "length (tokenize (chomp buf)) < MAX_ARGS" by simp
  from p have p': "''|'' \<in> set (spec_arguments (t # rest))" by (rule pipe_in_spec_arguments)
  from dispatch_pipe [OF len' tk nb p', of ?s1 os] obtain a
    where h: "holds_argv MAX_ARGS a 0 (spec_arguments (t # rest))"
      and pi: "parse_input MAX_ARGS (chomp buf) (args s) = Inr (spec_background (t # rest), a)"
      and d: "dispatch os ?s1 (chomp buf) =
             (if spec_background (t # rest)
              then ([Printf (''Error: Pipes cannot run in background in this version.'' @ [NL])],
                    Inr (?s1\<lparr>args := a\<rparr>))
              else
                (case execute_pipe os a (length (takeWhile (\<lambda>x. x \<noteq> ''|'') (spec_arguments (t # rest)))) of
                   (ev, Inl st) \<Rightarrow> (ev, Inl st)
                 | (ev, Inr a') \<Rightarrow> (ev, Inr (?s1\<lparr>args := a'\<rparr>))))"
    by auto
  have "find_pipe a 0 = Inr (int (length (takeWhile (\<lambda>x. x \<noteq> ''|'') (spec_arguments (t # rest)))))"
    using find_pipe_holds [OF h] p' by simp
  then have fp: "find_pipe a 0 = Inr (int (length (takeWhile (\<lambda>x. x \<noteq> ''|'') (t # rest))))"
    using takeWhile_spec_arguments [OF p] by simp
  have c: "last (t # rest) \<noteq> ''&'' \<Longrightarrow>
        loop_body os s buf =
          (case execute_pipe os a (length (takeWhile (\<lambda>x. x \<noteq> ''|'') (t # rest))) of
             (ev, Inl st) \<Rightarrow> (ev, Inl st)
           | (ev, Inr a') \<Rightarrow> (ev, Inr (?s1\<lparr>args := a'\<rparr>)))
        \<and> holds_argv MAX_ARGS a 0 (t # rest)"
    using lb d h by (simp add: spec_arguments_def spec_background_def)
  have l: "last (t # rest) \<noteq> ''&'' \<and> 0 \<le> pipe_ret os \<and> fork_ret1 os = 0 \<longrightarrow>
            loop_body os s buf =
              ([Pipe, Fork, Close ReadEnd, Dup2 WriteEnd STDOUT_FILENO, Close WriteEnd]
                 @ fst (child_exec os (Some (takeWhile (\<lambda>x. x \<noteq> ''|'') (t # rest)))),
               Inl (snd (child_exec os (Some (takeWhile (\<lambda>x. x \<noteq> ''|'') (t # rest))))))"
  proof
    assume a: "last (t # rest) \<noteq> ''&'' \<and> 0 \<le> pipe_ret os \<and> fork_ret1 os = 0"
    with c have lb': "loop_body os s buf =
          (case execute_pipe os a (length (takeWhile (\<lambda>x. x \<noteq> ''|'') (t # rest))) of
             (ev, Inl st) \<Rightarrow> (ev, Inl st)
           | (ev, Inr a') \<Rightarrow> (ev, Inr (?s1\<lparr>args := a'\<rparr>)))"
      and h': "holds_argv MAX_ARGS a 0 (t # rest)" by simp_all
    show "loop_body os s buf =
              ([Pipe, Fork, Close ReadEnd, Dup2 WriteEnd STDOUT_FILENO, Close WriteEnd]
                 @ fst (child_exec os (Some (takeWhile (\<lambda>x. x \<noteq> ''|'') (t # rest)))),
               Inl (snd (child_exec os (Some (takeWhile (\<lambda>x. x \<noteq> ''|'') (t # rest))))))"
      unfolding lb' execute_pipe_holds [OF h' p] using a by (simp add: Let_def)
  qed
  have r: "last (t # rest) \<noteq> ''&'' \<and> 0 \<le> pipe_ret os \<and> 0 < fork_ret1 os \<and> fork_ret2 os = 0 \<longrightarrow>
            loop_body os s buf =
              ([Pipe, Fork, Fork, Close WriteEnd, Dup2 ReadEnd STDIN_FILENO, Close ReadEnd]
                 @ fst (child_exec os (Some (tl (dropWhile (\<lambda>x. x \<noteq> ''|'') (t # rest))))),
               Inl (snd (child_exec os (Some (tl (dropWhile (\<lambda>x. x \<noteq> ''|'') (t # rest)))))))"
  proof
    assume a: "last (t # rest) \<noteq> ''&'' \<and> 0 \<le> pipe_ret os \<and> 0 < fork_ret1 os \<and> fork_ret2 os = 0"
    with c have lb': "loop_body os s buf =
          (case execute_pipe os a (length (takeWhile (\<lambda>x. x \<noteq> ''|'') (t # rest))) of
             (ev, Inl st) \<Rightarrow> (ev, Inl st)
           | (ev, Inr a') \<Rightarrow> (ev, Inr (?s1\<lparr>args := a'\<rparr>)))"
      and h': "holds_argv MAX_ARGS a 0 (t # rest)" by simp_all
    show "loop_body os s buf =
              ([Pipe, Fork, Fork, Close WriteEnd, Dup2 ReadEnd STDIN_FILENO, Close ReadEnd]
                 @ fst (child_exec os (Some (tl (dropWhile (\<lambda>x. x \<noteq> ''|'') (t # rest))))),
               Inl (snd (child_exec os (Some (tl (dropWhile (\<lambda>x. x \<noteq> ''|'') (t # rest)))))))"
      unfolding lb' execute_pipe_holds [OF h' p] using a by (simp add: Let_def)
  qed
  from pi fp l r show ?thesis by blast
qed

lemma tokenize_help_pipe: "tokenize (chomp ''ls | wc &'') = [''ls'', ''|'', ''wc'', ''&'']"
  by code_simp

theorem pipe_with_background_witness:
  "tokenize (chomp ''ls | wc &'') = ''ls'' # [''|'', ''wc'', ''&'']
   \<and> length (''ls'' # [''|'', ''wc'', ''&'']) < MAX_ARGS
   \<and> ''ls'' \<notin> {''exit'', ''cd'', ''pwd'', ''help'', ''history''}
   \<and> ''|'' \<in> set (''ls'' # [''|'', ''wc'', ''&''])
   \<and> last (''ls'' # [''|'', ''wc'', ''&'']) = ''&''
   \<and> (\<exists>s'. loop_body os_sample (initial zeroed) ''ls | wc &'' =
                ([Printf (''Error: Pipes cannot run in background in this version.'' @ [NL])], Inr s')
              \<and> should_run s' = should_run (initial zeroed))"
proof -
  have tk: "tokenize (chomp ''ls | wc &'') = ''ls'' # [''|'', ''wc'', ''&'']"
    by (simp add: tokenize_help_pipe)
  have l: "length (''ls'' # [''|'', ''wc'', ''&'']) < MAX_ARGS" by (simp add: MAX_ARGS_def)
  have nb: "''ls'' \<notin> {''exit'', ''cd'', ''pwd'', ''help'', ''history''}" by simp
  have p: "''|'' \<in> set (''ls'' # [''|'', ''wc'', ''&''])" by simp
  have bg: "last (''ls'' # [''|'', ''wc'', ''&'']) = ''&''" by simp
  from pipe_with_background [OF tk l nb p bg, of os_sample "initial zeroed"] tk l nb p bg
  show ?thesis by blast
qed

lemma tokenize_two_pipes: "tokenize (chomp ''a | b | c'') = [''a'', ''|'', ''b'', ''|'', ''c'']"
  by code_simp

theorem pipe_split_at_first_witness:
  "tokenize (chomp ''a | b | c'') = ''a'' # [''|'', ''b'', ''|'', ''c'']
   \<and> length (''a'' # [''|'', ''b'', ''|'', ''c'']) < MAX_ARGS
   \<and> ''a'' \<notin> {''exit'', ''cd'', ''pwd'', ''help'', ''history''}
   \<and> ''|'' \<in> set (''a'' # [''|'', ''b'', ''|'', ''c''])
   \<and> loop_body (os_sample\<lparr>fork_ret1 := 0\<rparr>) (initial zeroed) ''a | b | c'' =
        ([Pipe, Fork, Close ReadEnd, Dup2 WriteEnd STDOUT_FILENO, Close WriteEnd,
          Execvp ''a'' [''a'']], Inl ImageReplaced)
   \<and> loop_body (os_sample\<lparr>fork_ret2 := 0\<rparr>) (initial zeroed) ''a | b | c'' =
        ([Pipe, Fork, Fork, Close WriteEnd, Dup2 ReadEnd STDIN_FILENO, Close ReadEnd,
          Execvp ''b'' [''b'', ''|'', ''c'']], Inl ImageReplaced)"
proof -
  have tk: "tokenize (chomp ''a | b | c'') = ''a'' # [''|'', ''b'', ''|'', ''c'']"
    by (simp add: tokenize_two_pipes)
  have l: "length (''a'' # [''|'', ''b'', ''|'', ''c'']) < MAX_ARGS" by (simp add: MAX_ARGS_def)
  have nb: "''a'' \<notin> {''exit'', ''cd'', ''pwd'', ''help'', ''history''}" by simp
  have p: "''|'' \<in> set (''a'' # [''|'', ''b'', ''|'', ''c''])" by simp
  from pipe_split_at_first [OF tk l nb p, of "initial zeroed" "os_sample\<lparr>fork_ret1 := 0\<rparr>"]
  have c1: "loop_body (os_sample\<lparr>fork_ret1 := 0\<rparr>) (initial zeroed) ''a | b | c'' =
        ([Pipe, Fork, Close ReadEnd, Dup2 WriteEnd STDOUT_FILENO, Close WriteEnd,
          Execvp ''a'' [''a'']], Inl ImageReplaced)"
    by (simp add: os_sample_def child_exec_def)
  from pipe_split_at_first [OF tk l nb p, of "initial zeroed" "os_sample\<lparr>fork_ret2 := 0\<rparr>"]
  have c2: "loop_body (os_sample\<lparr>fork_ret2 := 0\<rparr>) (initial zeroed) ''a | b | c'' =
        ([Pipe, Fork, Fork, Close WriteEnd, Dup2 ReadEnd STDIN_FILENO, Close ReadEnd,
          Execvp ''b'' [''b'', ''|'', ''c'']], Inl ImageReplaced)"
    by (simp add: os_sample_def child_exec_def)
  from tk l nb p c1 c2 show ?thesis by blast
qed

subsection \<open>The history\<close>

lemma dispatch_history:
  assumes "dispatch os s line = (ev, Inr s')"
  shows "history s' = history s \<and> history_available s' = history_available s"
  using assms unfolding dispatch_def Let_def
  by (auto split: sum.splits prod.splits option.splits if_splits)

lemma loop_body_history:
  assumes "loop_body os s buf = (ev, Inr s')"
  shows "(chomp buf = [] \<longrightarrow> s' = s)
       \<and> (chomp buf = ''!!'' \<longrightarrow> history s' = history s \<and> history_available s' = history_available s)
       \<and> (chomp buf \<noteq> [] \<and> chomp buf \<noteq> ''!!'' \<longrightarrow> history s' = chomp buf \<and> history_available s')"
proof -
  have e: "chomp buf = [] \<longrightarrow> s' = s"
    using assms by (auto simp: loop_body_def Let_def)
  have r: "chomp buf = ''!!'' \<longrightarrow> history s' = history s \<and> history_available s' = history_available s"
  proof
    assume r: "chomp buf = ''!!''"
    show "history s' = history s \<and> history_available s' = history_available s"
    proof (cases "history_available s")
      case True
      from assms loop_body_recall [OF r True, of os]
      have "dispatch os s (history s) = (fst (dispatch os s (history s)), Inr s')"
        by (cases "dispatch os s (history s)") simp
      then show ?thesis by (rule dispatch_history)
    next
      case False
      from assms loop_body_no_history [OF r False, of os] show ?thesis by simp
    qed
  qed
  have n: "chomp buf \<noteq> [] \<and> chomp buf \<noteq> ''!!'' \<longrightarrow> history s' = chomp buf \<and> history_available s'"
  proof
    assume n: "chomp buf \<noteq> [] \<and> chomp buf \<noteq> ''!!''"
    then have "loop_body os s buf = dispatch os (s\<lparr>history := chomp buf, history_available := True\<rparr>) (chomp buf)"
      by (intro loop_body_record) simp_all
    with assms have "dispatch os (s\<lparr>history := chomp buf, history_available := True\<rparr>) (chomp buf) = (ev, Inr s')"
      by simp
    from dispatch_history [OF this] show "history s' = chomp buf \<and> history_available s'" by simp
  qed
  from e r n show ?thesis by blast
qed

lemma after_recall_id: "after_recall s = s"
  by (simp add: after_recall_def history_feature_def)

lemma after_recall_funpow: "(after_recall ^^ n) s = s"
  by (induction n) (simp_all add: after_recall_id)

lemma fgets_read_line:
  "NL \<notin> set l \<Longrightarrow> length l < n \<Longrightarrow> fgets_read n (l @ NL # rest) = (l @ [NL], rest)"
proof (induction l arbitrary: n)
  case Nil
  then show ?case by (cases n) simp_all
next
  case (Cons c cs)
  then obtain m where n: "n = Suc m" by (cases n) auto
  with Cons.prems have "fgets_read m (cs @ NL # rest) = (cs @ [NL], rest)"
    by (intro Cons.IH) simp_all
  with Cons.prems n show ?case by auto
qed

lemma reachable_history: "reachable s \<Longrightarrow> history s \<noteq> ''!!''"
proof (induction rule: reachable.induct)
  case (start garbage)
  show ?case by (simp add: initial_def)
next
  case (iteration s os buf ev s')
  from loop_body_history [OF iteration(3)] iteration(4) show ?case
    by (cases "chomp buf = []"; cases "chomp buf = ''!!''") auto
qed

lemma main_loop_reachable:
  "reachable s \<Longrightarrow> main_loop orc k s stdin = (ev, Inr s') \<Longrightarrow> reachable s'"
proof (induction orc k s stdin arbitrary: ev rule: main_loop.induct)
  case (1 orc k s stdin)
  show ?case
  proof (cases "should_run s")
    case False
    with "1.prems" show ?thesis by (simp add: main_loop.simps [of orc k s stdin])
  next
    case True
    show ?thesis
    proof (cases "fgets MAX_LINE stdin")
      case None
      with True "1.prems" show ?thesis by (simp add: main_loop.simps [of orc k s stdin])
    next
      case (Some p)
      obtain b rest where p: "p = (b, rest)" by (cases p)
      obtain ev1 r1 where lb: "loop_body (orc k) s (c_str b) = (ev1, r1)"
        by (cases "loop_body (orc k) s (c_str b)")
      show ?thesis
      proof (cases r1)
        case (Inl st)
        with True Some p lb "1.prems" show ?thesis
          by (simp add: main_loop.simps [of orc k s stdin])
      next
        case (Inr s1)
        with lb True "1.prems"(1) have r: "reachable s1"
          by (auto intro: reachable.iteration)
        obtain ev2 r2 where ml: "main_loop orc (Suc k) s1 rest = (ev2, r2)"
          by (cases "main_loop orc (Suc k) s1 rest")
        with True Some p lb Inr "1.prems"(2) have "r2 = Inr s'"
          by (simp add: main_loop.simps [of orc k s stdin])
        with ml have "main_loop orc (Suc k) s1 rest = (ev2, Inr s')" by simp
        with "1.IH" [OF True Some p [symmetric] lb [symmetric] Inr r] show ?thesis by blast
      qed
    qed
  qed
qed


text \<open>
  C2. A recall (the input \<open>!!\<close>) with a populated history yields the stored line and leaves
  the state as it is, so after recording \<open>x\<close> any number of recalls each yield \<open>x\<close>; an
  iteration on \<open>!!\<close> that returns to the loop has not changed the history, and it echoes
  and dispatches the stored line. Every other non-empty input is stored as the new history
  before it is dispatched: the dispatch already runs on the updated state, and the stored
  line is the input when the iteration returns.
\<close>

theorem history_recall_idempotent:
  "(history_available s \<longrightarrow>
      history_feature s ''!!'' = ([Printf (history s @ [NL])], Some (s, history s)))
   \<and> (after_recall ^^ n) s = s
   \<and> (x \<noteq> ''!!'' \<longrightarrow>
        history_feature s x = ([], Some (s\<lparr>history := x, history_available := True\<rparr>, x))
        \<and> snd (history_feature ((after_recall ^^ n) (s\<lparr>history := x, history_available := True\<rparr>)) ''!!'')
            = Some (s\<lparr>history := x, history_available := True\<rparr>, x))
   \<and> (chomp buf = ''!!'' \<longrightarrow>
        (case snd (loop_body os s buf) of
           Inl st \<Rightarrow> True
         | Inr s' \<Rightarrow> history s' = history s \<and> history_available s' = history_available s))
   \<and> (chomp buf = ''!!'' \<and> history_available s \<longrightarrow>
        loop_body os s buf =
          (Printf (history s @ [NL]) # fst (dispatch os s (history s)), snd (dispatch os s (history s))))
   \<and> (chomp buf \<noteq> ''!!'' \<and> chomp buf \<noteq> [] \<longrightarrow>
        loop_body os s buf =
          dispatch os (s\<lparr>history := chomp buf, history_available := True\<rparr>) (chomp buf)
        \<and> (case snd (loop_body os s buf) of
             Inl st \<Rightarrow> True
           | Inr s' \<Rightarrow> history s' = chomp buf \<and> history_available s'))"
proof -
  obtain ev r where lb: "loop_body os s buf = (ev, r)" by (cases "loop_body os s buf")
  have a: "history_available s \<longrightarrow>
      history_feature s ''!!'' = ([Printf (history s @ [NL])], Some (s, history s))"
    by (simp add: history_feature_def)
  have b: "(after_recall ^^ n) s = s" by (rule after_recall_funpow)
  have c: "x \<noteq> ''!!'' \<longrightarrow>
        history_feature s x = ([], Some (s\<lparr>history := x, history_available := True\<rparr>, x))
        \<and> snd (history_feature ((after_recall ^^ n) (s\<lparr>history := x, history_available := True\<rparr>)) ''!!'')
            = Some (s\<lparr>history := x, history_available := True\<rparr>, x)"
    by (simp add: after_recall_funpow history_feature_def)
  have d: "chomp buf = ''!!'' \<longrightarrow>
        (case snd (loop_body os s buf) of
           Inl st \<Rightarrow> True
         | Inr s' \<Rightarrow> history s' = history s \<and> history_available s' = history_available s)"
  proof (cases r)
    case (Inl st)
    with lb show ?thesis by simp
  next
    case (Inr s')
    with lb loop_body_history [of os s buf ev s'] show ?thesis by simp
  qed
  have e: "chomp buf = ''!!'' \<and> history_available s \<longrightarrow>
        loop_body os s buf =
          (Printf (history s @ [NL]) # fst (dispatch os s (history s)), snd (dispatch os s (history s)))"
    using loop_body_recall [of buf s os] by blast
  have f: "chomp buf \<noteq> ''!!'' \<and> chomp buf \<noteq> [] \<longrightarrow>
        loop_body os s buf =
          dispatch os (s\<lparr>history := chomp buf, history_available := True\<rparr>) (chomp buf)
        \<and> (case snd (loop_body os s buf) of
             Inl st \<Rightarrow> True
           | Inr s' \<Rightarrow> history s' = chomp buf \<and> history_available s')"
  proof
    assume n: "chomp buf \<noteq> ''!!'' \<and> chomp buf \<noteq> []"
    then have eq: "loop_body os s buf =
          dispatch os (s\<lparr>history := chomp buf, history_available := True\<rparr>) (chomp buf)"
      by (intro loop_body_record) simp_all
    have st: "case snd (loop_body os s buf) of
             Inl st \<Rightarrow> True
           | Inr s' \<Rightarrow> history s' = chomp buf \<and> history_available s'"
    proof (cases r)
      case (Inl st)
      then show ?thesis unfolding lb by simp
    next
      case (Inr s')
      with lb have "loop_body os s buf = (ev, Inr s')" by simp
      from loop_body_history [OF this] n Inr show ?thesis unfolding lb by simp
    qed
    from eq st show "loop_body os s buf =
          dispatch os (s\<lparr>history := chomp buf, history_available := True\<rparr>) (chomp buf)
        \<and> (case snd (loop_body os s buf) of
             Inl st \<Rightarrow> True
           | Inr s' \<Rightarrow> history s' = chomp buf \<and> history_available s')" ..
  qed
  from a b c d e f show ?thesis by blast
qed

theorem history_recall_idempotent_witness:
  "''ls -l'' \<noteq> ''!!''
   \<and> snd (history_feature ((after_recall ^^ 2) (initial zeroed\<lparr>history := ''ls -l'', history_available := True\<rparr>)) ''!!'')
       = Some (initial zeroed\<lparr>history := ''ls -l'', history_available := True\<rparr>, ''ls -l'')
   \<and> chomp ''pwd'' \<noteq> ''!!'' \<and> chomp ''pwd'' \<noteq> []
   \<and> (case snd (loop_body os_sample (initial zeroed) ''pwd'') of
         Inl st \<Rightarrow> False
       | Inr s' \<Rightarrow> history s' = ''pwd'' \<and> history_available s')"
proof -
  have x: "''ls -l'' \<noteq> ''!!''" by simp
  have c: "chomp ''pwd'' = ''pwd''" by code_simp
  then have n: "chomp ''pwd'' \<noteq> ''!!'' \<and> chomp ''pwd'' \<noteq> []" by simp
  have ok: "case snd (loop_body os_sample (initial zeroed) ''pwd'') of Inl st \<Rightarrow> False | Inr s' \<Rightarrow> True"
    by code_simp
  from history_recall_idempotent [of "initial zeroed" 2 "''ls -l''" "''pwd''" os_sample] x n c ok
  show ?thesis by (auto split: sum.splits)
qed

text \<open>
  C3. While no command has been recorded, the input \<open>!!\<close> prints the no-history notice and
  nothing else, and the iteration ends with the state unchanged; \<open>main\<close> goes on with the
  next line from that same state.
\<close>

theorem recall_without_history:
  assumes "\<not> history_available s"
  shows "(chomp buf = ''!!'' \<longrightarrow>
            loop_body os s buf = ([Printf (''No commands in history.'' @ [NL])], Inr s))
       \<and> (should_run s \<longrightarrow>
            main_loop orc k s (''!!'' @ NL # rest) =
              ([ReapZombies, Printf ''uinxsh> '', Fflush, Printf (''No commands in history.'' @ [NL])]
                 @ fst (main_loop orc (Suc k) s rest),
               snd (main_loop orc (Suc k) s rest)))"
proof -
  have a: "chomp buf = ''!!'' \<longrightarrow>
            loop_body os s buf = ([Printf (''No commands in history.'' @ [NL])], Inr s)"
    using assms loop_body_no_history [of buf s os] by blast
  have nl: "NL \<notin> set ''!!''" by (simp add: NL_def)
  have "fgets_read 79 (''!!'' @ NL # rest) = (''!!'' @ [NL], rest)"
    using nl by (rule fgets_read_line) simp
  then have fg: "fgets MAX_LINE (CHR ''!'' # CHR ''!'' # NL # rest) = Some ([CHR ''!'', CHR ''!'', NL], rest)"
    by (simp add: fgets_def MAX_LINE_def)
  have cs: "c_str [CHR ''!'', CHR ''!'', NL] = [CHR ''!'', CHR ''!'', NL]"
    by (simp add: c_str_def NUL_def NL_def)
  have ch: "chomp [CHR ''!'', CHR ''!'', NL] = ''!!''"
    using nl by (simp add: chomp_def)
  have lb: "loop_body (orc k) s [CHR ''!'', CHR ''!'', NL] = ([Printf (''No commands in history.'' @ [NL])], Inr s)"
    using ch assms by (rule loop_body_no_history)
  have b: "should_run s \<longrightarrow>
            main_loop orc k s (''!!'' @ NL # rest) =
              ([ReapZombies, Printf ''uinxsh> '', Fflush, Printf (''No commands in history.'' @ [NL])]
                 @ fst (main_loop orc (Suc k) s rest),
               snd (main_loop orc (Suc k) s rest))"
    by (subst main_loop.simps) (simp add: fg cs lb split: prod.splits)
  from a b show ?thesis ..
qed

theorem recall_without_history_witness:
  "\<not> history_available (initial zeroed) \<and> chomp ''!!'' = ''!!''
   \<and> loop_body os_sample (initial zeroed) ''!!''
       = ([Printf (''No commands in history.'' @ [NL])], Inr (initial zeroed))"
proof -
  have h: "\<not> history_available (initial zeroed)" by (simp add: initial_def)
  have c: "chomp ''!!'' = ''!!''" by code_simp
  from recall_without_history [OF h, of "''!!''" os_sample] h c show ?thesis by blast
qed

text \<open>
  C9. In every reachable state the stored history is not the literal \<open>!!\<close>; hence the
  line the history feature hands on to the parser, typed or recalled, is never \<open>!!\<close>, and
  neither is the history it leaves.
\<close>

theorem history_never_recall_literal:
  assumes "reachable s"
  shows "history s \<noteq> ''!!''
       \<and> (history_feature s x = (ev, Some (s1, line)) \<longrightarrow> history s1 \<noteq> ''!!'' \<and> line \<noteq> ''!!'')"
proof -
  from assms have h: "history s \<noteq> ''!!''" by (rule reachable_history)
  then have "history_feature s x = (ev, Some (s1, line)) \<longrightarrow> history s1 \<noteq> ''!!'' \<and> line \<noteq> ''!!''"
    by (auto simp: history_feature_def split: if_splits)
  with h show ?thesis ..
qed

theorem history_never_recall_literal_witness:
  "reachable (initial zeroed) \<and> history (initial zeroed) \<noteq> ''!!''
   \<and> reachable (projr (snd (loop_body os_sample (initial zeroed) ''echo hi'')))
   \<and> history (projr (snd (loop_body os_sample (initial zeroed) ''echo hi''))) = ''echo hi''
   \<and> history (projr (snd (loop_body os_sample (initial zeroed) ''echo hi''))) \<noteq> ''!!''"
proof -
  let ?r = "loop_body os_sample (initial zeroed) ''echo hi''"
  have r0: "reachable (initial zeroed)" by (rule reachable.start)
  have "case snd ?r of Inl st \<Rightarrow> False | Inr s' \<Rightarrow> history s' = ''echo hi''"
    by code_simp
  then have ok: "snd ?r = Inr (projr (snd ?r))" and h: "history (projr (snd ?r)) = ''echo hi''"
    by (auto split: sum.splits)
  from ok have eq: "?r = (fst ?r, Inr (projr (snd ?r)))"
    by (cases ?r) simp
  have sr: "should_run (initial zeroed)" by (simp add: initial_def)
  have r1: "reachable (projr (snd ?r))"
    by (rule reachable.iteration [OF r0 sr eq])
  from history_never_recall_literal [OF r0] history_never_recall_literal [OF r1] r0 r1 h
  show ?thesis by blast
qed


subsection \<open>The directory change\<close>

text \<open>
  The two branches of \<open>builtin_cd\<close> on any line: only the branch with a path looks at
  what \<open>chdir\<close> returns.
\<close>

lemma dispatch_cd:
  assumes len: "length (tokenize line) < MAX_ARGS"
      and av: "spec_arguments (tokenize line) = ''cd'' # rest"
  shows "fst (dispatch os s line) =
           (case rest of
              [] \<Rightarrow> [Chdir (getenv_HOME os)]
            | p # ps \<Rightarrow> if chdir_ret os (Some p) \<noteq> 0 then [Chdir (Some p), Perror ''cd failed'']
                       else [Chdir (Some p)])
       \<and> (\<exists>s'. snd (dispatch os s line) = Inr s' \<and> should_run s' = should_run s)"
proof -
  from parse_input_holds [OF len, of "args s"] av obtain a
    where p: "parse_input MAX_ARGS line (args s) = Inr (spec_background (tokenize line), a)"
      and h: "holds_argv MAX_ARGS a 0 (''cd'' # rest)"
    by auto
  from h have a0: "a 0 = Some ''cd''" and h1: "holds_argv MAX_ARGS a (Suc 0) rest"
    by (simp_all add: holds_argv_Cons)
  have a1: "a 1 = (case rest of [] \<Rightarrow> None | p # ps \<Rightarrow> Some p)"
  proof (cases rest)
    case Nil
    with h1 show ?thesis by (simp add: holds_argv_Nil)
  next
    case (Cons p ps)
    with h1 show ?thesis by (simp add: holds_argv_Cons)
  qed
  show ?thesis
    unfolding dispatch_def p using a0 a1
    by (simp add: Let_def builtin_cd_def split: list.splits)
qed

lemma bare_cd_unchecked:
  assumes "tokenize (chomp buf) = [''cd'']"
  shows "fst (loop_body os s buf) = [Chdir (getenv_HOME os)]"
proof -
  from assms have "chomp buf \<noteq> []" using tokenize_Nil by auto
  moreover from assms have "chomp buf \<noteq> ''!!''" using tokenize_recall by auto
  ultimately have lb: "loop_body os s buf =
      dispatch os (s\<lparr>history := chomp buf, history_available := True\<rparr>) (chomp buf)"
    by (intro loop_body_record) simp_all
  have "length (tokenize (chomp buf)) < MAX_ARGS" using assms by (simp add: MAX_ARGS_def)
  moreover have "spec_arguments (tokenize (chomp buf)) = ''cd'' # []"
    using assms by (simp add: spec_arguments_def)
  ultimately show ?thesis
    unfolding lb using dispatch_cd [of "chomp buf" "[]"] by simp
qed

text \<open>
  C7 fails on the code for the bare \<open>cd\<close>: with \<open>HOME\<close> naming a directory that does not
  exist, \<open>chdir\<close> returns \<open>-1\<close> and the shell reports nothing, while \<open>cd /nonexistent\<close>
  with the same failing \<open>chdir\<close> is reported by \<open>perror\<close>.
\<close>

theorem cd_home_failure_unreported:
  "tokenize (chomp ''cd'') = [''cd'']
   \<and> chdir_ret os_sample (getenv_HOME os_sample) = - 1
   \<and> fst (loop_body os_sample (initial zeroed) ''cd'') = [Chdir (Some ''/nonexistent'')]
   \<and> fst (loop_body os_sample (initial zeroed) ''cd /nonexistent'')
       = [Chdir (Some ''/nonexistent''), Perror ''cd failed'']"
  by code_simp


subsection \<open>The capacity of the argument array\<close>

text \<open>
  A line of \<open>n\<close> characters has at most \<open>(n + 1) / 2\<close> tokens, so what \<open>fgets\<close> delivers
  has at most forty. Below forty no access leaves the array; at forty the loop body
  faults.
\<close>

lemma strtok_lengths:
  assumes "strtok s = Some (t, r)"
  shows "t \<noteq> [] \<and> length t + length r + (if r = [] then 0 else 1) \<le> length s"
proof -
  let ?start = "dropWhile is_delim s"
  let ?d = "dropWhile (\<lambda>c. \<not> is_delim c) ?start"
  from assms have ne: "?start \<noteq> []"
    and t: "t = takeWhile (\<lambda>c. \<not> is_delim c) ?start"
    and r: "r = drop 1 ?d"
    by (auto simp: strtok_def Let_def split: if_splits)
  from ne have "\<not> is_delim (hd ?start)" by (rule hd_dropWhile)
  with ne t have tne: "t \<noteq> []" by (cases ?start) auto
  have "length t + length ?d = length ?start"
    unfolding t by (metis length_append takeWhile_dropWhile_id)
  moreover have "length ?start \<le> length s" by (rule length_dropWhile_le)
  moreover have "length r + (if r = [] then 0 else 1) \<le> length ?d"
    unfolding r by (cases ?d) auto
  ultimately have "length t + length r + (if r = [] then 0 else 1) \<le> length s" by linarith
  with tne show ?thesis ..
qed

lemma token_count_bound: "2 * length (tokenize s) \<le> length s + 1"
proof (induction s rule: tokenize.induct)
  case (1 s)
  show ?case
  proof (cases "strtok s")
    case None
    then show ?thesis by (simp add: tokenize_None)
  next
    case (Some p)
    obtain t r where p: "p = (t, r)" by (cases p)
    with Some have st: "strtok s = Some (t, r)" by simp
    from strtok_lengths [OF st] have tne: "1 \<le> length t"
      and le: "length t + length r + (if r = [] then 0 else 1) \<le> length s"
      by (simp_all add: Suc_le_eq)
    show ?thesis
    proof (cases "r = []")
      case True
      with st tne le show ?thesis by (simp add: tokenize_Some tokenize_Nil)
    next
      case False
      with "1.IH" [OF st refl] tne le st show ?thesis by (simp add: tokenize_Some)
    qed
  qed
qed

lemma fgets_read_length: "fgets_read n s = (b, r) \<Longrightarrow> length b \<le> n"
proof (induction n s arbitrary: b r rule: fgets_read.induct)
  case (3 n c cs)
  then show ?case by (auto split: if_splits prod.splits)
qed auto

lemma fgets_token_count:
  assumes "fgets MAX_LINE stdin = Some (b, r)"
  shows "length (tokenize (chomp (c_str b))) \<le> MAX_ARGS"
proof -
  from assms have "length b \<le> 79"
    by (auto simp: fgets_def MAX_LINE_def split: if_splits dest: fgets_read_length)
  moreover have "length (chomp (c_str b)) \<le> length b"
    unfolding chomp_def c_str_def
    by (rule order_trans [OF length_takeWhile_le length_takeWhile_le])
  moreover have "2 * length (tokenize (chomp (c_str b))) \<le> length (chomp (c_str b)) + 1"
    by (rule token_count_bound)
  ultimately show ?thesis by (simp add: MAX_ARGS_def)
qed

lemma dispatch_overflow:
  "MAX_ARGS \<le> length (tokenize line) \<Longrightarrow> dispatch os s line = ([], Inl ArgsOutOfBounds)"
  by (simp add: dispatch_def parse_input_overflow)

lemma dispatch_in_bounds:
  assumes "length (tokenize line) < MAX_ARGS"
  shows "snd (dispatch os s line) \<noteq> Inl ArgsOutOfBounds"
proof -
  from parse_input_holds [OF assms, of "args s"] obtain a
    where p: "parse_input MAX_ARGS line (args s) = Inr (spec_background (tokenize line), a)"
      and h: "holds_argv MAX_ARGS a 0 (spec_arguments (tokenize line))"
    by blast
  have fp: "\<exists>i. find_pipe a 0 = Inr i" using find_pipe_holds [OF h] by simp
  have av: "argv_from MAX_ARGS a 0 = Some (spec_arguments (tokenize line))"
    using h by (rule holds_argv_argv_from)
  show ?thesis
  proof (cases "''|'' \<in> set (spec_arguments (tokenize line))")
    case True
    have ep: "snd (execute_pipe os a (length (takeWhile (\<lambda>t. t \<noteq> ''|'') (spec_arguments (tokenize line)))))
                \<noteq> Inl ArgsOutOfBounds"
      unfolding execute_pipe_holds [OF h True]
      by (simp add: Let_def child_exec_def split: list.splits)
    from True find_pipe_holds [OF h]
    have "find_pipe a 0 = Inr (int (length (takeWhile (\<lambda>t. t \<noteq> ''|'') (spec_arguments (tokenize line)))))"
      by simp
    with ep show ?thesis
      unfolding dispatch_def p
      by (auto simp: Let_def split: option.splits prod.splits sum.splits)
  next
    case False
    with find_pipe_holds [OF h] have "find_pipe a 0 = Inr (- 1)" by simp
    moreover have "launch os a bg \<noteq> (ev, Inl ArgsOutOfBounds)" for bg ev
      unfolding launch_def av
      by (auto simp: child_exec_def split: list.splits prod.splits)
    ultimately show ?thesis
      unfolding dispatch_def p
      by (auto simp: Let_def split: option.splits prod.splits sum.splits)
  qed
qed



text \<open>
  C6 fails on the code for a line of forty tokens, which \<open>fgets\<close> can deliver in its 79
  characters: the tokens fill all the slots of the array and the terminating \<open>NULL\<close> is
  written one past its end.
\<close>

theorem forty_tokens_overflow:
  "length forty_tokens = 79
   \<and> length (tokenize forty_tokens) = MAX_ARGS
   \<and> fst (main_loop always_sample 0 (initial zeroed) (forty_tokens @ [NL]))
       = [ReapZombies, Printf ''uinxsh> '', Fflush]
   \<and> (case snd (main_loop always_sample 0 (initial zeroed) (forty_tokens @ [NL])) of
         Inl st \<Rightarrow> st = ArgsOutOfBounds
       | Inr s' \<Rightarrow> False)"
  by code_simp

end
